theory Spec2Isabelle
  imports Main "HOL-Library.Char_ord" "HOL-Library.List_Lexorder" "HOL-Library.Sublist"
begin

section \<open>Characters the command-line assembly looks at\<close>

text \<open>
  A \<open>std::string\<close> or \<open>std::string_view\<close> is a \<open>string\<close>, a list of bytes. The
  characters the code compares with are named here; they are abbreviations, so they
  evaluate as the character literals they stand for.
\<close>

abbreviation SQ :: char where "SQ \<equiv> CHR 0x27"
abbreviation DQ :: char where "DQ \<equiv> CHR 0x22"
abbreviation BSL :: char where "BSL \<equiv> CHR 0x5C"
abbreviation BTICK :: char where "BTICK \<equiv> CHR 0x60"
abbreviation DOLLAR :: char where "DOLLAR \<equiv> CHR 0x24"
abbreviation SPC :: char where "SPC \<equiv> CHR 0x20"
abbreviation TAB :: char where "TAB \<equiv> CHR 0x09"
abbreviation NEWLINE :: char where "NEWLINE \<equiv> CHR 0x0A"

section \<open>CMDLineAssembly::sq_quote\<close>

text \<open>
  \<open>string_view::find(ch)\<close>: the index of the first occurrence, \<open>None\<close> for \<open>npos\<close>.
\<close>

fun sv_find :: "char \<Rightarrow> string \<Rightarrow> nat option" where
  "sv_find ch [] = None"
| "sv_find ch (c # cs) =
     (if c = ch then Some 0 else map_option Suc (sv_find ch cs))"

text \<open>
  The test \<open>where == input.size() - 1\<close> is on \<open>size_t\<close>: for an empty \<open>input\<close> the
  right-hand side wraps around to the largest value, which is \<open>npos\<close>.
\<close>

definition at_last_index :: "nat option \<Rightarrow> string \<Rightarrow> bool" where
  "at_last_index wh input =
     (case wh of
        None \<Rightarrow> input = []
      | Some w \<Rightarrow> input \<noteq> [] \<and> w = length input - 1)"

text \<open>
  The \<open>while (true)\<close> loop of \<open>sq_quote\<close>. At the head of every iteration \<open>where\<close> is
  \<open>input.find('\'')\<close> of the current \<open>input\<close> (set before the loop and at the end of the
  body), so the loop is a function of \<open>result\<close> and \<open>input\<close>.
  \<open>input.substr(0, n)\<close> is \<open>take n input\<close> and \<open>input.substr(n)\<close> is \<open>drop n input\<close>.
\<close>

lemma sv_find_less: "sv_find ch s = Some w \<Longrightarrow> w < length s"
  by (induction s arbitrary: w) (auto split: if_splits)

function sq_quote_loop :: "string \<Rightarrow> string \<Rightarrow> string" where
  "sq_quote_loop result input =
     (let wh = sv_find SQ input in
      if at_last_index wh input
      then result @ take (length input - 1) input @ [SQ, BSL, SQ]
      else (case wh of
              None \<Rightarrow> result @ input @ [SQ]
            | Some w \<Rightarrow>
                sq_quote_loop (result @ take w input @ [SQ, BSL, SQ, SQ])
                              (drop (w + 1) input)))"
  by pat_completeness auto
termination
  by (relation "measure (\<lambda>(result, input). length input)")
     (auto dest!: sv_find_less [OF sym])

declare sq_quote_loop.simps [simp del]

definition sq_quote :: "string \<Rightarrow> string" where
  "sq_quote input =
     (case sv_find SQ input of
        None \<Rightarrow> [SQ] @ input @ [SQ]
      | Some w \<Rightarrow> sq_quote_loop [SQ] input)"

subsection \<open>The algorithm in the specification's words\<close>

text \<open>
  Each embedded single quote becomes the four characters quote, backslash, quote, quote.
\<close>

definition sq_escape :: "string \<Rightarrow> string" where
  "sq_escape s = concat (map (\<lambda>c. if c = SQ then [SQ, BSL, SQ, SQ] else [c]) s)"

text \<open>
  Wrapped in single quotes; a trailing single quote is encoded as quote, backslash, quote
  with no closing quote.
\<close>

definition sq_quote_spec :: "string \<Rightarrow> string" where
  "sq_quote_spec s =
     (if s \<noteq> [] \<and> last s = SQ
      then [SQ] @ sq_escape (butlast s) @ [SQ, BSL, SQ]
      else [SQ] @ sq_escape s @ [SQ])"

text \<open>What the loop appends to \<open>result\<close> for a non-empty \<open>input\<close>.\<close>

definition sq_tail :: "string \<Rightarrow> string" where
  "sq_tail s =
     (if s \<noteq> [] \<and> last s = SQ then sq_escape (butlast s) @ [SQ, BSL, SQ]
      else sq_escape s @ [SQ])"

section \<open>CMDLineAssembly::validate_exec_key\<close>

text \<open>
  The function returns an optional diagnostic. The diagnostics are values here; where the
  text of the source's message carries character positions, the value carries them.
\<close>

datatype validation_error =
    EscapeAtEndOfLine
  | InvalidEscapeSequence char nat nat
  | UnquotedEscapeSequence nat
  | MissingEndQuote

text \<open>
  The \<open>for\<close> loop over the index \<open>i\<close>, as a recursion over the characters from \<open>i\<close>
  on: \<open>inq\<close> is the variable \<open>in_quotes\<close>, and the \<open>++i\<close> after a valid escape skips
  the escaped character.
\<close>

fun validate_loop :: "bool \<Rightarrow> nat \<Rightarrow> string \<Rightarrow> validation_error option" where
  "validate_loop inq i [] = (if inq then Some MissingEndQuote else None)"
| "validate_loop inq i (ch # rest) =
     (if inq then
        (if ch = BSL then
           (case rest of
              [] \<Rightarrow> Some EscapeAtEndOfLine
            | nx # rest' \<Rightarrow>
                if nx = DQ \<or> nx = BTICK \<or> nx = DOLLAR \<or> nx = BSL
                then validate_loop True (i + 2) rest'
                else Some (InvalidEscapeSequence nx (i + 1) (i + 2)))
         else if ch = DQ then validate_loop False (i + 1) rest
         else validate_loop True (i + 1) rest)
      else
        (if ch = DQ then validate_loop True (i + 1) rest
         else if ch = BSL then Some (UnquotedEscapeSequence (i + 1))
         else validate_loop False (i + 1) rest))"

definition validate_exec_key :: "string \<Rightarrow> validation_error option" where
  "validate_exec_key exec_key = validate_loop False 0 exec_key"

section \<open>CMDLineAssembly::convert_exec_to_command\<close>

record ParsingQuirks =
  extra_wine_escaping :: bool
  multiple_spaces_in_exec :: bool

text \<open>The default argument of \<open>convert_exec_to_command\<close>: both quirks disabled.\<close>

definition default_quirks :: ParsingQuirks where
  "default_quirks = \<lparr>extra_wine_escaping = False, multiple_spaces_in_exec = False\<rparr>"

datatype invalid_Exec = invalid_Exec string

text \<open>
  The local variables of the function that the loop reads and writes. The two
  \<open>has_..._warning_been_printed\<close> flags only decide whether a warning is logged; they
  and the log are left out.
\<close>

record tokenizer =
  result :: "string list"
  curr :: string
  in_quotes :: bool
  escaping :: bool

definition tokenizer_init :: tokenizer where
  "tokenizer_init = \<lparr>result = [], curr = [], in_quotes = False, escaping = False\<rparr>"

text \<open>
  One iteration of \<open>for (char ch : exec_key)\<close>. The \<open>switch\<close> of the escaping branch has
  no \<open>default\<close>: any other character appends nothing, and \<open>escaping\<close> is cleared after the
  \<open>switch\<close> in every case that does not throw.
\<close>

definition exec_char :: "ParsingQuirks \<Rightarrow> tokenizer \<Rightarrow> char \<Rightarrow> invalid_Exec + tokenizer" where
  "exec_char quirks st ch =
     (if escaping st then
        (if ch = DQ then Inr (st\<lparr>curr := curr st @ [DQ], escaping := False\<rparr>)
         else if ch = BTICK then Inr (st\<lparr>curr := curr st @ [BTICK], escaping := False\<rparr>)
         else if ch = DOLLAR then Inr (st\<lparr>curr := curr st @ [DOLLAR], escaping := False\<rparr>)
         else if ch = BSL then Inr (st\<lparr>curr := curr st @ [BSL], escaping := False\<rparr>)
         else if ch = SPC then
           (if extra_wine_escaping quirks
            then Inr (st\<lparr>curr := curr st @ [SPC], escaping := False\<rparr>)
            else Inl (invalid_Exec
                   (''Found invalid escape sequence '' @ [BTICK, BSL, SPC, BTICK]
                    @ '' in the Exec key!'')))
         else Inr (st\<lparr>escaping := False\<rparr>))
      else if in_quotes st then
        (if ch = DQ then Inr (st\<lparr>in_quotes := False\<rparr>)
         else if ch = BSL then Inr (st\<lparr>escaping := True\<rparr>)
         else Inr (st\<lparr>curr := curr st @ [ch]\<rparr>))
      else
        (if ch = DQ then Inr (st\<lparr>in_quotes := True\<rparr>)
         else if ch = SPC then
           (if multiple_spaces_in_exec quirks \<and> curr st = [] then Inr st
            else Inr (st\<lparr>result := result st @ [curr st], curr := []\<rparr>))
         else if ch = BSL then
           (if extra_wine_escaping quirks then Inr (st\<lparr>escaping := True\<rparr>)
            else Inl (invalid_Exec (''Found '' @ [SQ, BSL, SQ] @ '' unquoted in Exec!'')))
         else Inr (st\<lparr>curr := curr st @ [ch]\<rparr>)))"

text \<open>The loop: a \<open>throw\<close> leaves it at once.\<close>

fun exec_loop :: "ParsingQuirks \<Rightarrow> tokenizer \<Rightarrow> string \<Rightarrow> invalid_Exec + tokenizer" where
  "exec_loop quirks st [] = Inr st"
| "exec_loop quirks st (ch # rest) =
     (case exec_char quirks st ch of
        Inl err \<Rightarrow> Inl err
      | Inr st' \<Rightarrow> exec_loop quirks st' rest)"

definition convert_exec_to_command :: "string \<Rightarrow> ParsingQuirks \<Rightarrow> invalid_Exec + string list" where
  "convert_exec_to_command exec_key quirks =
     (case exec_loop quirks tokenizer_init exec_key of
        Inl err \<Rightarrow> Inl err
      | Inr st \<Rightarrow> Inr (if curr st \<noteq> [] then result st @ [curr st] else result st))"

text \<open>
  The Exec field of the specification's Wine scenario, character for character as it is
  printed there (two backslashes at each place), and the same field with one backslash
  at each place.
\<close>

definition wine_exec :: string where
  "wine_exec = ''wine start /unix '' @ [DQ] @ ''C:'' @ [BSL, BSL] @ ''Program Files''
     @ [BSL, BSL] @ ''App'' @ [BSL, BSL] @ ''app.exe'' @ [DQ]"

definition wine_exec_single :: string where
  "wine_exec_single = ''wine start /unix '' @ [DQ] @ ''C:'' @ [BSL] @ ''Program Files''
     @ [BSL] @ ''App'' @ [BSL] @ ''app.exe'' @ [DQ]"

section \<open>The wrapping operations and create_argv\<close>

definition wrap_cmdstring_in_shell :: "string \<Rightarrow> string list" where
  "wrap_cmdstring_in_shell cmdstring = [''/bin/sh'', ''-c'', cmdstring]"

text \<open>
  \<open>convert_argv_to_string\<close>: the first element quoted, then for every further element a
  space and the element quoted.
\<close>

definition convert_argv_to_string :: "string list \<Rightarrow> string" where
  "convert_argv_to_string command =
     (case command of
        [] \<Rightarrow> []
      | front # rest \<Rightarrow> foldl (\<lambda>res i. res @ [SPC] @ sq_quote i) (sq_quote front) rest)"

text \<open>\<open>std::vector::insert(pos, first, last)\<close> with \<open>pos\<close> as an index.\<close>

definition vector_insert :: "nat \<Rightarrow> 'a list \<Rightarrow> 'a list \<Rightarrow> 'a list" where
  "vector_insert pos xs v = take pos v @ xs @ drop pos v"

definition wrap_script :: string where
  "wrap_script = ''wrap='' @ [DQ] @ ''$1'' @ [DQ] @ ''; shift; $wrap '' @ [DQ] @ ''$@'' @ [DQ]"

definition wrap_command_in_wrapper :: "string list \<Rightarrow> string \<Rightarrow> string list" where
  "wrap_command_in_wrapper command wrapper =
     (let res = [''/bin/sh'', ''-c'', wrap_script, ''/bin/sh'', wrapper]
      in vector_insert (length res) command res)"

text \<open>
  A \<open>const char *\<close> is the null pointer or points to the characters of a string of the
  command. \<open>abort()\<close> is the only way the function fails.
\<close>

datatype c_str = NULL | Ptr string

datatype aborted = Aborted

text \<open>
  The loop writes through the iterator \<open>iter\<close>, here the index it stands at, and advances
  it.
\<close>

fun argv_fill :: "c_str list \<Rightarrow> nat \<Rightarrow> string list \<Rightarrow> c_str list" where
  "argv_fill res iter [] = res"
| "argv_fill res iter (arg # args) = argv_fill (res[iter := Ptr arg]) (Suc iter) args"

definition create_argv :: "string list \<Rightarrow> aborted + c_str list" where
  "create_argv command =
     (if command = [] then Inl Aborted
      else Inr (argv_fill (replicate (length command + 1) NULL) 0 command))"

section \<open>The name mapping of main.cc\<close>

text \<open>
  Modelled from the spec: \<open>DynamicCompare\<close>, the comparator of \<open>name_map\<close>, whose header
  (DynamicCompare.hh) is not among the sources. The specification says that comparison
  is case-sensitive or case-insensitive depending on configuration, and that the order
  is the natural order over the chosen case-folding: strings are compared bytewise after
  folding, and folding is the identity or ASCII lower case.
\<close>

definition to_lower :: "char \<Rightarrow> char" where
  "to_lower c =
     (if CHR ''A'' \<le> c \<and> c \<le> CHR ''Z'' then char_of (of_char c + (32::nat)) else c)"

definition key_fold :: "bool \<Rightarrow> string \<Rightarrow> string" where
  "key_fold case_insensitive s = (if case_insensitive then map to_lower s else s)"

definition dc_less :: "bool \<Rightarrow> string \<Rightarrow> string \<Rightarrow> bool" where
  "dc_less case_insensitive a b = (key_fold case_insensitive a < key_fold case_insensitive b)"

text \<open>Two keys are equivalent for an ordered container when neither is less.\<close>

definition dc_equiv :: "bool \<Rightarrow> string \<Rightarrow> string \<Rightarrow> bool" where
  "dc_equiv ci a b = (\<not> dc_less ci a b \<and> \<not> dc_less ci b a)"

text \<open>
  A \<open>std::map\<close> with this comparator is the list of its entries in the order of
  iteration; a \<open>std::set\<close> the list of its elements. \<open>try_emplace\<close> and \<open>emplace\<close>
  insert at the place the order gives unless an equivalent key is there; \<open>find\<close> returns
  the entry with an equivalent key; \<open>erase(key)\<close> removes the equivalent elements and
  returns how many there were.
\<close>

type_synonym 'app name_map = "(string \<times> 'app) list"

fun map_try_emplace :: "bool \<Rightarrow> string \<Rightarrow> 'app \<Rightarrow> 'app name_map \<Rightarrow> 'app name_map" where
  "map_try_emplace ci k v [] = [(k, v)]"
| "map_try_emplace ci k v ((k', v') # m) =
     (if dc_less ci k k' then (k, v) # (k', v') # m
      else if dc_less ci k' k then (k', v') # map_try_emplace ci k v m
      else (k', v') # m)"

definition map_find :: "bool \<Rightarrow> 'app name_map \<Rightarrow> string \<Rightarrow> (string \<times> 'app) option" where
  "map_find ci m query = find (\<lambda>e. dc_equiv ci (fst e) query) m"

fun set_emplace :: "bool \<Rightarrow> string \<Rightarrow> string list \<Rightarrow> string list" where
  "set_emplace ci k [] = [k]"
| "set_emplace ci k (k' # s) =
     (if dc_less ci k k' then k # k' # s
      else if dc_less ci k' k then k' # set_emplace ci k s
      else k' # s)"

definition set_erase :: "bool \<Rightarrow> string \<Rightarrow> string list \<Rightarrow> string list \<times> nat" where
  "set_erase ci k s =
     (filter (\<lambda>e. \<not> dc_equiv ci e k) s, length (filter (\<lambda>e. dc_equiv ci e k) s))"

subsection \<open>format_name_app_mapping\<close>

text \<open>
  \<open>orig_mapping\<close> is what \<open>appm.view_name_app_mapping()\<close> iterates over, in its order;
  the formatter is a parameter, as in the source. An \<open>Application\<close> is any type.
\<close>

definition format_name_app_mapping ::
  "(string \<times> 'app) list \<Rightarrow> (string \<Rightarrow> 'app \<Rightarrow> string) \<Rightarrow> bool \<Rightarrow> 'app name_map" where
  "format_name_app_mapping orig_mapping format case_insensitive =
     foldl (\<lambda>res (key, ptr). map_try_emplace case_insensitive (format key ptr) ptr res)
       [] orig_mapping"

text \<open>
  In the specification's words: on a collision the first insertion wins. The entry
  \<open>(k, a)\<close> is a first insertion when some entry of the catalog with application \<open>a\<close>
  formats to \<open>k\<close> and no earlier entry formats to an equivalent key.
\<close>

definition first_insertion ::
  "bool \<Rightarrow> (string \<Rightarrow> 'app \<Rightarrow> string) \<Rightarrow> (string \<times> 'app) list \<Rightarrow> string \<Rightarrow> 'app \<Rightarrow> bool" where
  "first_insertion ci format orig k a \<longleftrightarrow>
     (\<exists>pre key post. orig = pre @ (key, a) # post \<and> format key a = k \<and>
        (\<forall>e \<in> set pre. \<not> dc_equiv ci (format (fst e) (snd e)) k))"

subsection \<open>do_dmenu: the lines written to the menu\<close>

text \<open>
  The part of \<open>do_dmenu\<close> that transfers the names: the value is the list of the
  arguments of \<open>dmenu.write\<close>, in the order of the calls. \<open>histm\<close> is the optional
  history, given by its \<open>view()\<close>, the (count, name) pairs in history order.
\<close>

definition history_step ::
  "bool \<Rightarrow> string list \<times> string list \<Rightarrow> nat \<times> string \<Rightarrow> string list \<times> string list" where
  "history_step ci state entry =
     (case state of (desktop_file_names, written) \<Rightarrow>
        (case set_erase ci (snd entry) desktop_file_names of (remaining, count) \<Rightarrow>
           if count \<noteq> 0 then (remaining, written @ [snd entry])
           else (remaining, written)))"

definition do_dmenu_lines ::
  "bool \<Rightarrow> 'app name_map \<Rightarrow> (nat \<times> string) list option \<Rightarrow> string list" where
  "do_dmenu_lines ci mapping histm =
     (case histm of
        None \<Rightarrow> map fst mapping
      | Some view \<Rightarrow>
          (let desktop_file_names = foldl (\<lambda>s e. set_emplace ci (fst e) s) [] mapping
           in case foldl (history_step ci) (desktop_file_names, []) view of
                (remaining, written) \<Rightarrow> written @ remaining))"

text \<open>
  For the statement about the history: the first name of each class of names with the
  same \<open>f\<close>, in order.
\<close>

function first_of_each :: "('a \<Rightarrow> 'b) \<Rightarrow> 'a list \<Rightarrow> 'a list" where
  "first_of_each f [] = []"
| "first_of_each f (x # xs) = x # first_of_each f (filter (\<lambda>y. f y \<noteq> f x) xs)"
  by pat_completeness auto
termination
  by (relation "measure (\<lambda>(f, xs). length xs)") (auto simp: less_Suc_eq_le)

subsection \<open>lookup_name\<close>

record 'app lookup_result =
  app :: 'app
  args :: string

text \<open>
  Modelled from the spec: \<open>startswith\<close> of Utilities.hh, which is not among the sources;
  the specification calls the matching key a prefix of the choice.
\<close>

definition startswith :: "string \<Rightarrow> string \<Rightarrow> bool" where
  "startswith str pre = prefix pre str"

text \<open>The \<open>for\<close> loop of the \<open>else\<close> branch; \<open>query.substr(n)\<close> is \<open>drop n query\<close>.\<close>

fun lookup_prefix :: "string \<Rightarrow> 'app name_map \<Rightarrow> 'app lookup_result option" where
  "lookup_prefix query [] = None"
| "lookup_prefix query ((name, ptr) # rest) =
     (if startswith query name
      then Some \<lparr>app = ptr, args = drop (length name) query\<rparr>
      else lookup_prefix query rest)"

definition lookup_name :: "bool \<Rightarrow> string \<Rightarrow> 'app name_map \<Rightarrow> 'app lookup_result option" where
  "lookup_name ci query m =
     (case map_find ci m query of
        Some found \<Rightarrow> Some \<lparr>app = snd found, args = []\<rparr>
      | None \<Rightarrow> lookup_prefix query m)"

section \<open>How a POSIX shell reads the quoted text\<close>

text \<open>
  The fragment of the shell's token recognition (XCU 2.2 and 2.3) that the quoting targets:
  words are separated by unquoted blanks; inside single quotes every character is
  literal up to the next single quote; an unquoted backslash makes the next character
  literal, and a backslash before a newline is a line continuation. A word that has been
  opened by a quote exists even when it is empty. Every other unquoted character (where
  expansions, operators and reserved words would come in) is outside the fragment, as is
  an unterminated quote or a backslash at the end: the result is \<open>None\<close>.
\<close>

datatype sh_mode = Unquoted | InSingle

fun sh_scan :: "sh_mode \<Rightarrow> string list \<Rightarrow> string option \<Rightarrow> string \<Rightarrow> string list option" where
  "sh_scan Unquoted acc cur [] = Some (acc @ (case cur of None \<Rightarrow> [] | Some w \<Rightarrow> [w]))"
| "sh_scan InSingle acc cur [] = None"
| "sh_scan InSingle acc cur (c # cs) =
     (if c = SQ then sh_scan Unquoted acc cur cs
      else sh_scan InSingle acc (Some (case_option [] id cur @ [c])) cs)"
| "sh_scan Unquoted acc cur (c # cs) =
     (if c = SPC \<or> c = TAB
        then sh_scan Unquoted (acc @ (case cur of None \<Rightarrow> [] | Some w \<Rightarrow> [w])) None cs
      else if c = SQ
        then sh_scan InSingle acc (Some (case_option [] id cur)) cs
      else if c = BSL
        then (case cs of
                [] \<Rightarrow> None
              | d # ds \<Rightarrow>
                  if d = NEWLINE then sh_scan Unquoted acc cur ds
                  else sh_scan Unquoted acc (Some (case_option [] id cur @ [d])) ds)
      else None)"

definition sh_split :: "string \<Rightarrow> string list option" where
  "sh_split s = sh_scan Unquoted [] None s"

section \<open>Properties of sq_quote\<close>

lemma sv_find_None: "sv_find ch s = None \<longleftrightarrow> ch \<notin> set s"
  by (induction s) auto

lemma sv_find_Some:
  "sv_find ch s = Some w \<Longrightarrow> s = take w s @ ch # drop (Suc w) s \<and> ch \<notin> set (take w s)"
  by (induction s arbitrary: w) (auto split: if_splits)

lemma sq_escape_plain: "SQ \<notin> set s \<Longrightarrow> sq_escape s = s"
  by (induction s) (auto simp: sq_escape_def)

lemma sq_escape_append: "sq_escape (a @ b) = sq_escape a @ sq_escape b"
  by (simp add: sq_escape_def)

lemma sq_escape_quote: "sq_escape (SQ # s) = [SQ, BSL, SQ, SQ] @ sq_escape s"
  by (simp add: sq_escape_def)

lemma no_quote_last: "SQ \<notin> set s \<Longrightarrow> \<not> (s \<noteq> [] \<and> last s = SQ)"
  using last_in_set by fastforce

lemma sq_tail_plain: "SQ \<notin> set s \<Longrightarrow> sq_tail s = s @ [SQ]"
  using no_quote_last [of s] by (auto simp: sq_tail_def sq_escape_plain)

lemma sq_tail_snoc_quote: "SQ \<notin> set a \<Longrightarrow> sq_tail (a @ [SQ]) = a @ [SQ, BSL, SQ]"
  by (simp add: sq_tail_def sq_escape_plain)

lemma sq_tail_cons:
  "SQ \<notin> set a \<Longrightarrow> b \<noteq> [] \<Longrightarrow> sq_tail (a @ SQ # b) = a @ [SQ, BSL, SQ, SQ] @ sq_tail b"
  by (simp add: sq_tail_def sq_escape_plain sq_escape_append sq_escape_quote butlast_append)

lemma sq_quote_loop_tail:
  "input \<noteq> [] \<Longrightarrow> sq_quote_loop res input = res @ sq_tail input"
proof (induction res input rule: sq_quote_loop.induct)
  case (1 res input)
  show ?case
  proof (cases "sv_find SQ input")
    case None
    then have "SQ \<notin> set input" by (simp add: sv_find_None)
    with None "1.prems" show ?thesis
      by (subst sq_quote_loop.simps) (simp add: at_last_index_def sq_tail_plain)
  next
    case (Some w)
    from sv_find_Some [OF Some]
    have split: "input = take w input @ SQ # drop (Suc w) input"
      and plain: "SQ \<notin> set (take w input)" by simp_all
    from sv_find_less [OF Some] have w: "w < length input" .
    show ?thesis
    proof (cases "w = length input - 1")
      case True
      with w have "drop (Suc w) input = []" by simp
      with split have "input = take w input @ [SQ]" by simp
      then have "sq_tail input = take w input @ [SQ, BSL, SQ]"
        using sq_tail_snoc_quote [OF plain] by simp
      with Some True "1.prems" show ?thesis
        by (subst sq_quote_loop.simps) (simp add: at_last_index_def)
    next
      case False
      with w have ne: "drop (Suc w) input \<noteq> []" by simp
      have nl: "\<not> at_last_index (sv_find SQ input) input"
        using Some False by (simp add: at_last_index_def)
      have "sq_tail input = sq_tail (take w input @ SQ # drop (Suc w) input)"
        using split by simp
      also have "\<dots> = take w input @ [SQ, BSL, SQ, SQ] @ sq_tail (drop (Suc w) input)"
        by (rule sq_tail_cons [OF plain ne])
      finally have t: "sq_tail input = take w input @ [SQ, BSL, SQ, SQ] @ sq_tail (drop (Suc w) input)" .
      have "sq_quote_loop res input =
            sq_quote_loop (res @ take w input @ [SQ, BSL, SQ, SQ]) (drop (w + 1) input)"
        using Some nl by (subst sq_quote_loop.simps) simp
      also have "\<dots> = (res @ take w input @ [SQ, BSL, SQ, SQ]) @ sq_tail (drop (w + 1) input)"
        using "1.IH" [OF refl nl Some] ne by simp
      finally show ?thesis using t by simp
    qed
  qed
qed

lemma sq_quote_eq_spec: "sq_quote s = sq_quote_spec s"
proof (cases "sv_find SQ s")
  case None
  then have "SQ \<notin> set s" by (simp add: sv_find_None)
  then have "sq_quote_spec s = [SQ] @ s @ [SQ]"
    using no_quote_last [of s] by (auto simp: sq_quote_spec_def sq_escape_plain)
  with None show ?thesis by (simp add: sq_quote_def)
next
  case (Some w)
  then have "s \<noteq> []" by auto
  then have "sq_quote_loop [SQ] s = [SQ] @ sq_tail s" by (rule sq_quote_loop_tail)
  with Some show ?thesis by (simp add: sq_quote_def sq_quote_spec_def sq_tail_def)
qed


lemma sh_scan_escape:
  "sh_scan InSingle acc (Some w) (sq_escape t @ rest) = sh_scan InSingle acc (Some (w @ t)) rest"
proof (induction t arbitrary: w)
  case Nil
  then show ?case by (simp add: sq_escape_def)
next
  case (Cons c t)
  show ?case
  proof (cases "c = SQ")
    case True
    have "sh_scan InSingle acc (Some w) (sq_escape (c # t) @ rest) =
          sh_scan InSingle acc (Some (w @ [SQ])) (sq_escape t @ rest)"
      using True by (simp add: sq_escape_quote)
    then show ?thesis using Cons.IH [of "w @ [SQ]"] True by simp
  next
    case False
    then have "sq_escape (c # t) = c # sq_escape t" by (simp add: sq_escape_def)
    then show ?thesis using Cons.IH [of "w @ [c]"] False by simp
  qed
qed

lemma sh_scan_sq_quote:
  "sh_scan Unquoted acc cur (sq_quote s @ rest) =
   sh_scan Unquoted acc (Some (case_option [] id cur @ s)) rest"
proof (cases "s \<noteq> [] \<and> last s = SQ")
  case True
  then have s: "butlast s @ [SQ] = s" by (metis append_butlast_last_id)
  have "sh_scan Unquoted acc cur (sq_quote s @ rest) =
        sh_scan InSingle acc (Some (case_option [] id cur)) (sq_escape (butlast s) @ [SQ, BSL, SQ] @ rest)"
    using True by (simp add: sq_quote_eq_spec sq_quote_spec_def)
  also have "\<dots> = sh_scan InSingle acc (Some (case_option [] id cur @ butlast s)) ([SQ, BSL, SQ] @ rest)"
    by (rule sh_scan_escape)
  also have "\<dots> = sh_scan Unquoted acc (Some (case_option [] id cur @ butlast s @ [SQ])) rest"
    by simp
  finally show ?thesis using s by simp
next
  case False
  have "sh_scan Unquoted acc cur (sq_quote s @ rest) =
        sh_scan InSingle acc (Some (case_option [] id cur)) (sq_escape s @ [SQ] @ rest)"
    using False by (auto simp: sq_quote_eq_spec sq_quote_spec_def)
  also have "\<dots> = sh_scan InSingle acc (Some (case_option [] id cur @ s)) ([SQ] @ rest)"
    by (rule sh_scan_escape)
  finally show ?thesis by simp
qed

lemma foldl_join:
  "foldl (\<lambda>res i. res @ SPC # sq_quote i) r xs =
   r @ concat (map (\<lambda>i. SPC # sq_quote i) xs)"
  by (induction xs arbitrary: r) simp_all

lemma sh_scan_joined:
  "sh_scan Unquoted acc (Some w) (concat (map (\<lambda>i. SPC # sq_quote i) xs)) = Some (acc @ w # xs)"
proof (induction xs arbitrary: acc w)
  case Nil
  show ?case by simp
next
  case (Cons x xs)
  have "sh_scan Unquoted acc (Some w) (concat (map (\<lambda>i. SPC # sq_quote i) (x # xs))) =
        sh_scan Unquoted (acc @ [w]) None (sq_quote x @ concat (map (\<lambda>i. SPC # sq_quote i) xs))"
    by simp
  also have "\<dots> = sh_scan Unquoted (acc @ [w]) (Some x) (concat (map (\<lambda>i. SPC # sq_quote i) xs))"
    using sh_scan_sq_quote [of "acc @ [w]" None x] by simp
  also have "\<dots> = Some ((acc @ [w]) @ x # xs)" by (rule Cons.IH)
  finally show ?case by simp
qed

lemma sh_split_argv: "sh_split (convert_argv_to_string argv) = Some argv"
proof (cases argv)
  case Nil
  then show ?thesis by (simp add: sh_split_def convert_argv_to_string_def)
next
  case (Cons a as)
  have "sh_split (convert_argv_to_string argv) =
        sh_scan Unquoted [] None (sq_quote a @ concat (map (\<lambda>i. SPC # sq_quote i) as))"
    using Cons by (simp add: sh_split_def convert_argv_to_string_def foldl_join)
  also have "\<dots> = sh_scan Unquoted [] (Some a) (concat (map (\<lambda>i. SPC # sq_quote i) as))"
    using sh_scan_sq_quote [of "[]" None a] by simp
  also have "\<dots> = Some ([] @ a # as)" by (rule sh_scan_joined)
  finally show ?thesis using Cons by simp
qed

text \<open>
  Claim C1. For every byte string \<open>s\<close>, the shell reads \<open>sq_quote s\<close> as the single word
  \<open>s\<close>; \<open>sq_quote s\<close> is \<open>s\<close> wrapped in single quotes with each embedded single quote
  replaced by quote-backslash-quote-quote, a trailing single quote being encoded as
  quote-backslash-quote with no closing quote; and the three examples of the
  specification have the stated values.
\<close>

theorem sq_quote_roundtrip:
  "sh_split (sq_quote s) = Some [s]
   \<and> sq_quote s = sq_quote_spec s
   \<and> sq_quote (''it'' @ [SQ] @ ''s a test'') = [SQ] @ ''it'' @ [SQ, BSL, SQ, SQ] @ ''s a test'' @ [SQ]
   \<and> sq_quote (''end'' @ [SQ]) = [SQ] @ ''end'' @ [SQ, BSL, SQ]
   \<and> sq_quote ''plain'' = [SQ] @ ''plain'' @ [SQ]"
proof -
  have "sh_split (sq_quote s) = Some [s]"
    using sh_scan_sq_quote [of "[]" None s "[]"] by (simp add: sh_split_def)
  moreover have "sq_quote (''it'' @ [SQ] @ ''s a test'') = [SQ] @ ''it'' @ [SQ, BSL, SQ, SQ] @ ''s a test'' @ [SQ]"
    by (simp add: sq_quote_def sq_quote_loop.simps at_last_index_def)
  moreover have "sq_quote (''end'' @ [SQ]) = [SQ] @ ''end'' @ [SQ, BSL, SQ]"
    by (simp add: sq_quote_def sq_quote_loop.simps at_last_index_def)
  moreover have "sq_quote ''plain'' = [SQ] @ ''plain'' @ [SQ]"
    by (simp add: sq_quote_def)
  ultimately show ?thesis by (simp add: sq_quote_eq_spec)
qed

theorem sq_quote_roundtrip_witness:
  "sh_split (sq_quote [SQ, CHR ''a'', SQ, SQ]) = Some [[SQ, CHR ''a'', SQ, SQ]]
   \<and> sq_quote [SQ, CHR ''a'', SQ, SQ] = sq_quote_spec [SQ, CHR ''a'', SQ, SQ]
   \<and> sq_quote [SQ, CHR ''a'', SQ, SQ] = [SQ, SQ, BSL, SQ, SQ, CHR ''a'', SQ, BSL, SQ, SQ, SQ, BSL, SQ]"
proof -
  have "sq_quote_spec [SQ, CHR ''a'', SQ, SQ] =
        [SQ, SQ, BSL, SQ, SQ, CHR ''a'', SQ, BSL, SQ, SQ, SQ, BSL, SQ]"
    by (simp add: sq_quote_spec_def sq_escape_def)
  then show ?thesis
    using sq_quote_roundtrip [of "[SQ, CHR ''a'', SQ, SQ]"] by (simp add: sh_split_def)
qed

section \<open>The wrapping operations\<close>

text \<open>
  Claim C9. \<open>wrap_cmdstring_in_shell c\<close> is \<open>/bin/sh\<close>, \<open>-c\<close>, \<open>c\<close>; and
  \<open>wrap_command_in_wrapper\<close> gives the five fixed elements, the wrapper string the
  fifth, followed by the elements of the command in order.
\<close>

theorem wrap_vectors:
  "wrap_cmdstring_in_shell c = [''/bin/sh'', ''-c'', c]
   \<and> wrap_command_in_wrapper command W =
       [''/bin/sh'', ''-c'',
        ''wrap='' @ [DQ] @ ''$1'' @ [DQ] @ ''; shift; $wrap '' @ [DQ] @ ''$@'' @ [DQ],
        ''/bin/sh'', W] @ command"
  by (simp add: wrap_cmdstring_in_shell_def wrap_command_in_wrapper_def vector_insert_def
      wrap_script_def)

theorem wrap_vectors_witness:
  "wrap_cmdstring_in_shell ''true'' = [''/bin/sh'', ''-c'', ''true'']
   \<and> wrap_command_in_wrapper [''a0'', ''a1''] ''i3 exec'' =
       [''/bin/sh'', ''-c'',
        ''wrap='' @ [DQ] @ ''$1'' @ [DQ] @ ''; shift; $wrap '' @ [DQ] @ ''$@'' @ [DQ],
        ''/bin/sh'', ''i3 exec'', ''a0'', ''a1'']"
  using wrap_vectors [of "''true''" "[''a0'', ''a1'']" "''i3 exec''"] by simp

section \<open>create_argv\<close>

lemma argv_fill_length: "length (argv_fill res iter command) = length res"
  by (induction command arbitrary: res iter) simp_all

lemma argv_fill_nth:
  "iter + length command \<le> length res \<Longrightarrow>
   argv_fill res iter command ! j =
     (if iter \<le> j \<and> j < iter + length command then Ptr (command ! (j - iter)) else res ! j)"
proof (induction command arbitrary: res iter)
  case Nil
  then show ?case by auto
next
  case (Cons arg args)
  from Cons.prems have "Suc iter + length args \<le> length (res[iter := Ptr arg])" by simp
  from Cons.IH [OF this] Cons.prems show ?case
    by (auto simp: nth_list_update Suc_diff_le)
qed

text \<open>
  Claim C10. For a non-empty command of \<open>n\<close> strings \<open>create_argv\<close> returns \<open>n + 1\<close>
  pointers, the first \<open>n\<close> pointing to the strings of the command in order and the last
  the null pointer; for the empty command it aborts. So every vector it returns is
  null-terminated.
\<close>

theorem create_argv_null_terminated:
  "create_argv [] = Inl Aborted
   \<and> (command \<noteq> [] \<longrightarrow>
        (\<exists>argv. create_argv command = Inr argv
           \<and> length argv = length command + 1
           \<and> (\<forall>i < length command. argv ! i = Ptr (command ! i))
           \<and> argv ! length command = NULL
           \<and> argv = map Ptr command @ [NULL]))"
proof -
  let ?argv = "argv_fill (replicate (length command + 1) NULL) 0 command"
  have len: "length ?argv = length command + 1" by (simp add: argv_fill_length)
  have nth: "?argv ! j = (if j < length command then Ptr (command ! j) else NULL)"
    if "j \<le> length command" for j
  proof -
    from that have "replicate (length command + 1) NULL ! j = NULL"
      by (intro nth_replicate) simp
    with argv_fill_nth [of 0 command "replicate (length command + 1) NULL" j]
    show ?thesis by (simp del: replicate_Suc replicate.simps)
  qed
  have "?argv = map Ptr command @ [NULL]"
  proof (rule nth_equalityI)
    show "length ?argv = length (map Ptr command @ [NULL])" using len by simp
  next
    fix i assume "i < length ?argv"
    with len have i: "i \<le> length command" by simp
    from nth [OF i] i show "?argv ! i = (map Ptr command @ [NULL]) ! i"
      by (auto simp: nth_append)
  qed
  with len nth show ?thesis by (simp add: create_argv_def)
qed

theorem create_argv_null_terminated_witness:
  "create_argv [] = Inl Aborted
   \<and> create_argv [''/bin/sh'', ''-c'', ''true''] =
       Inr [Ptr ''/bin/sh'', Ptr ''-c'', Ptr ''true'', NULL]"
  using create_argv_null_terminated [of "[''/bin/sh'', ''-c'', ''true'']"] by auto

section \<open>Properties of the Exec tokenizer\<close>

lemma exec_char_raises:
  "(\<exists>err. exec_char q st c = Inl err) \<longleftrightarrow>
   (\<not> extra_wine_escaping q \<and>
    ((escaping st \<and> c = SPC) \<or> (\<not> escaping st \<and> \<not> in_quotes st \<and> c = BSL)))"
  by (simp add: exec_char_def)

lemma exec_loop_append:
  "exec_loop q st (p @ r) =
     (case exec_loop q st p of Inl err \<Rightarrow> Inl err | Inr st' \<Rightarrow> exec_loop q st' r)"
  by (induction p arbitrary: st) (simp_all split: sum.splits)

lemma exec_loop_raises:
  "(\<exists>err. exec_loop q st e = Inl err) \<longleftrightarrow>
   (\<exists>p c r st'. e = p @ c # r \<and> exec_loop q st p = Inr st' \<and> (\<exists>err. exec_char q st' c = Inl err))"
proof (induction e arbitrary: st)
  case Nil
  show ?case by simp
next
  case (Cons ch rest)
  show ?case
  proof (cases "exec_char q st ch")
    case (Inl err)
    have "ch # rest = [] @ ch # rest \<and> exec_loop q st [] = Inr st \<and> (\<exists>err. exec_char q st ch = Inl err)"
      using Inl by simp
    then have "\<exists>p c r st'. ch # rest = p @ c # r \<and> exec_loop q st p = Inr st' \<and> (\<exists>err. exec_char q st' c = Inl err)"
      by blast
    with Inl show ?thesis by simp
  next
    case (Inr st1)
    have "(\<exists>p c r st'. ch # rest = p @ c # r \<and> exec_loop q st p = Inr st' \<and> (\<exists>err. exec_char q st' c = Inl err))
      \<longleftrightarrow> (\<exists>p c r st'. rest = p @ c # r \<and> exec_loop q st1 p = Inr st' \<and> (\<exists>err. exec_char q st' c = Inl err))"
      (is "?L \<longleftrightarrow> ?R")
    proof
      assume ?L
      then obtain p c r st' where e: "ch # rest = p @ c # r" and l: "exec_loop q st p = Inr st'"
        and x: "\<exists>err. exec_char q st' c = Inl err" by blast
      show ?R
      proof (cases p)
        case Nil
        with e l x Inr show ?thesis by simp
      next
        case (Cons a p')
        with e have "a = ch" and "rest = p' @ c # r" by simp_all
        moreover from l Cons \<open>a = ch\<close> Inr have "exec_loop q st1 p' = Inr st'" by simp
        ultimately show ?thesis using x by blast
      qed
    next
      assume ?R
      then obtain p c r st' where e: "rest = p @ c # r" and l: "exec_loop q st1 p = Inr st'"
        and x: "\<exists>err. exec_char q st' c = Inl err" by blast
      from e have "ch # rest = (ch # p) @ c # r" by simp
      moreover from l Inr have "exec_loop q st (ch # p) = Inr st'" by simp
      ultimately show ?L using x by blast
    qed
    with Inr Cons.IH [of st1] show ?thesis by simp
  qed
qed

lemma exec_char_no_empty:
  assumes "multiple_spaces_in_exec q" and "exec_char q st c = Inr st'" and "[] \<notin> set (result st)"
  shows "[] \<notin> set (result st')"
  using assms by (auto simp: exec_char_def split: if_splits)

lemma exec_loop_no_empty:
  assumes "multiple_spaces_in_exec q"
  shows "exec_loop q st e = Inr st' \<Longrightarrow> [] \<notin> set (result st) \<Longrightarrow> [] \<notin> set (result st')"
proof (induction e arbitrary: st)
  case Nil
  then show ?case by simp
next
  case (Cons ch rest)
  from Cons.prems(1) obtain st1 where c: "exec_char q st ch = Inr st1"
    and l: "exec_loop q st1 rest = Inr st'" by (auto split: sum.splits)
  from exec_char_no_empty [OF assms c Cons.prems(2)] have "[] \<notin> set (result st1)" .
  with Cons.IH [OF l] show ?case .
qed

lemma validated_exec_loop:
  "validate_loop inq i e = None \<Longrightarrow> in_quotes st = inq \<Longrightarrow> \<not> escaping st \<Longrightarrow>
   \<exists>st'. exec_loop q st e = Inr st' \<and> \<not> in_quotes st' \<and> \<not> escaping st'"
proof (induction inq i e arbitrary: st rule: validate_loop.induct)
  case (1 inq i)
  then show ?case by (simp split: if_splits)
next
  case (2 inq i ch rest)
  show ?case
  proof (cases inq)
    case True
    note inq = True
    show ?thesis
    proof (cases "ch = BSL")
      case True
      with "2.prems"(1) inq obtain nx rest' where r: "rest = nx # rest'"
        and nx: "nx = DQ \<or> nx = BTICK \<or> nx = DOLLAR \<or> nx = BSL"
        and v: "validate_loop True (i + 2) rest' = None"
        by (auto split: list.splits if_splits)
      from "2.prems" inq True have s1: "exec_char q st ch = Inr (st\<lparr>escaping := True\<rparr>)"
        by (simp add: exec_char_def)
      from nx obtain st2 where s2: "exec_char q (st\<lparr>escaping := True\<rparr>) nx = Inr st2"
        and q2: "in_quotes st2 = in_quotes st" and e2: "\<not> escaping st2"
        by (auto simp: exec_char_def)
      from "2.IH"(1) [OF inq True r nx v] q2 e2 "2.prems"(2) inq
      obtain st' where "exec_loop q st2 rest' = Inr st'" "\<not> in_quotes st'" "\<not> escaping st'"
        by auto
      with s1 s2 r show ?thesis by simp
    next
      case False
      note nb = False
      show ?thesis
      proof (cases "ch = DQ")
        case True
        with "2.prems"(1) inq nb have v: "validate_loop False (i + 1) rest = None" by simp
        from "2.prems" inq True have s1: "exec_char q st ch = Inr (st\<lparr>in_quotes := False\<rparr>)"
          by (simp add: exec_char_def)
        from "2.IH"(2) [OF inq nb True v, of "st\<lparr>in_quotes := False\<rparr>"] "2.prems"(3)
        obtain st' where "exec_loop q (st\<lparr>in_quotes := False\<rparr>) rest = Inr st'"
          "\<not> in_quotes st'" "\<not> escaping st'" by auto
        with s1 show ?thesis by simp
      next
        case False
        with "2.prems"(1) inq nb have v: "validate_loop True (i + 1) rest = None" by simp
        from "2.prems" inq nb False have s1: "exec_char q st ch = Inr (st\<lparr>curr := curr st @ [ch]\<rparr>)"
          by (simp add: exec_char_def)
        from "2.IH"(3) [OF inq nb False v, of "st\<lparr>curr := curr st @ [ch]\<rparr>"] "2.prems"(2,3) inq
        obtain st' where "exec_loop q (st\<lparr>curr := curr st @ [ch]\<rparr>) rest = Inr st'"
          "\<not> in_quotes st'" "\<not> escaping st'" by auto
        with s1 show ?thesis by simp
      qed
    qed
  next
    case False
    note inq = False
    show ?thesis
    proof (cases "ch = DQ")
      case True
      with "2.prems"(1) inq have v: "validate_loop True (i + 1) rest = None" by simp
      from "2.prems" inq True have s1: "exec_char q st ch = Inr (st\<lparr>in_quotes := True\<rparr>)"
        by (simp add: exec_char_def)
      from "2.IH"(4) [OF inq True v, of "st\<lparr>in_quotes := True\<rparr>"] "2.prems"(3)
      obtain st' where "exec_loop q (st\<lparr>in_quotes := True\<rparr>) rest = Inr st'"
        "\<not> in_quotes st'" "\<not> escaping st'" by auto
      with s1 show ?thesis by simp
    next
      case False
      note nd = False
      with "2.prems"(1) inq have nb: "ch \<noteq> BSL" and v: "validate_loop False (i + 1) rest = None"
        by (auto split: if_splits)
      from "2.prems" inq nd nb
      have "\<exists>st1. exec_char q st ch = Inr st1 \<and> in_quotes st1 = False \<and> \<not> escaping st1"
        by (simp add: exec_char_def)
      then obtain st1 where s1: "exec_char q st ch = Inr st1"
        and q1: "in_quotes st1 = False" and e1: "\<not> escaping st1" by blast
      from "2.IH"(5) [OF inq nd nb v, of st1] q1 e1
      obtain st' where "exec_loop q st1 rest = Inr st'"
        "\<not> in_quotes st'" "\<not> escaping st'" by auto
      with s1 show ?thesis by simp
    qed
  qed
qed

lemmas exec_eval = convert_exec_to_command_def exec_char_def tokenizer_init_def default_quirks_def
  validate_exec_key_def

text \<open>
  Claim C3. For every Exec field that \<open>validate_exec_key\<close> accepts,
  \<open>convert_exec_to_command\<close> with the default quirks raises no \<open>invalid_Exec\<close>, and the
  tokens, each quoted by \<open>sq_quote\<close> and joined by single spaces, are split by the shell
  into the same token list.
\<close>

theorem validated_exec_roundtrip:
  assumes "validate_exec_key e = None"
  shows "\<exists>argv. convert_exec_to_command e default_quirks = Inr argv
           \<and> sh_split (convert_argv_to_string argv) = Some argv"
proof -
  from validated_exec_loop [of False 0 e tokenizer_init default_quirks] assms
  obtain st where "exec_loop default_quirks tokenizer_init e = Inr st"
    by (auto simp: validate_exec_key_def tokenizer_init_def)
  then show ?thesis by (simp add: convert_exec_to_command_def sh_split_argv)
qed

theorem validated_exec_roundtrip_witness:
  "validate_exec_key (''mpv --really-quiet '' @ [DQ] @ ''%f'' @ [DQ]) = None
   \<and> (\<exists>argv. convert_exec_to_command (''mpv --really-quiet '' @ [DQ] @ ''%f'' @ [DQ]) default_quirks = Inr argv
           \<and> sh_split (convert_argv_to_string argv) = Some argv)"
proof -
  have v: "validate_exec_key (''mpv --really-quiet '' @ [DQ] @ ''%f'' @ [DQ]) = None"
    by (simp add: validate_exec_key_def)
  from validated_exec_roundtrip [OF v] v show ?thesis by blast
qed

text \<open>
  Claim C5, as amended. With \<open>multiple_spaces_in_exec\<close> enabled the argument vector has no
  empty token, for every Exec field and either setting of the other quirk. With it
  disabled a space outside quotes and outside an escape finalizes the current token
  whether or not it is empty: the field \<open>a\<close>, two spaces, \<open>b\<close> gives \<open>a\<close>, the empty
  token and \<open>b\<close>.
\<close>

theorem multiple_spaces_no_empty_token:
  "(multiple_spaces_in_exec q \<longrightarrow> convert_exec_to_command e q = Inr argv \<longrightarrow> [] \<notin> set argv)
   \<and> (\<not> multiple_spaces_in_exec q \<longrightarrow> \<not> escaping st \<longrightarrow> \<not> in_quotes st \<longrightarrow>
        exec_char q st SPC = Inr (st\<lparr>result := result st @ [curr st], curr := []\<rparr>))
   \<and> convert_exec_to_command ''a  b'' \<lparr>extra_wine_escaping = w, multiple_spaces_in_exec = False\<rparr>
        = Inr [''a'', [], ''b'']"
proof -
  have "[] \<notin> set argv" if q: "multiple_spaces_in_exec q" and c: "convert_exec_to_command e q = Inr argv"
  proof -
    from c obtain st' where l: "exec_loop q tokenizer_init e = Inr st'"
      and a: "argv = (if curr st' \<noteq> [] then result st' @ [curr st'] else result st')"
      by (auto simp: convert_exec_to_command_def split: sum.splits)
    from exec_loop_no_empty [OF q l] have "[] \<notin> set (result st')"
      by (simp add: tokenizer_init_def)
    with a show ?thesis by auto
  qed
  moreover have "convert_exec_to_command ''a  b'' \<lparr>extra_wine_escaping = w, multiple_spaces_in_exec = False\<rparr>
        = Inr [''a'', [], ''b'']"
    by (simp add: exec_eval)
  ultimately show ?thesis by (simp add: exec_char_def)
qed

theorem multiple_spaces_no_empty_token_witness:
  "multiple_spaces_in_exec \<lparr>extra_wine_escaping = False, multiple_spaces_in_exec = True\<rparr>
   \<and> convert_exec_to_command ''a  b'' \<lparr>extra_wine_escaping = False, multiple_spaces_in_exec = True\<rparr>
       = Inr [''a'', ''b'']
   \<and> [] \<notin> set [''a'', ''b'']
   \<and> \<not> multiple_spaces_in_exec default_quirks
   \<and> exec_char default_quirks tokenizer_init SPC = Inr (tokenizer_init\<lparr>result := [[]], curr := []\<rparr>)"
proof -
  have c: "convert_exec_to_command ''a  b'' \<lparr>extra_wine_escaping = False, multiple_spaces_in_exec = True\<rparr>
       = Inr [''a'', ''b'']"
    by (simp add: exec_eval)
  from multiple_spaces_no_empty_token
    [of "\<lparr>extra_wine_escaping = False, multiple_spaces_in_exec = True\<rparr>" "''a  b''" "[''a'', ''b'']" tokenizer_init]
    c
  have 1: "[] \<notin> set [''a'', ''b'']" by simp
  from multiple_spaces_no_empty_token [of default_quirks "''a  b''" "[''a'', ''b'']" tokenizer_init]
  have 2: "exec_char default_quirks tokenizer_init SPC = Inr (tokenizer_init\<lparr>result := [[]], curr := []\<rparr>)"
    by (simp add: default_quirks_def tokenizer_init_def)
  from c 1 2 show ?thesis by (simp add: default_quirks_def)
qed

text \<open>
  Against claim C5 as stated: with the default quirks the field \<open>a\<close>, two spaces, \<open>b\<close>
  gives three tokens, the second one empty.
\<close>

theorem empty_token_counterexample:
  "convert_exec_to_command ''a  b'' default_quirks = Inr [''a'', [], ''b'']
   \<and> [] \<in> set [''a'', [], ''b'']"
  by (simp add: exec_eval)

text \<open>
  Claim C6, as amended. \<open>convert_exec_to_command\<close> raises \<open>invalid_Exec\<close> exactly when
  \<open>extra_wine_escaping\<close> is disabled and the scan, having read a prefix without raising,
  meets a space in the Escaping state or a backslash outside double quotes and outside
  an escape. The end of the field raises nothing: a field whose scan ends inside double
  quotes or in the Escaping state gives an argument vector, and it is
  \<open>validate_exec_key\<close> that reports an error for it.
\<close>

theorem convert_exec_raises_iff:
  "((\<exists>err. convert_exec_to_command e q = Inl err) \<longleftrightarrow>
      (\<not> extra_wine_escaping q \<and>
       (\<exists>p c r st. e = p @ c # r \<and> exec_loop q tokenizer_init p = Inr st \<and>
          ((escaping st \<and> c = SPC) \<or> (\<not> escaping st \<and> \<not> in_quotes st \<and> c = BSL)))))
   \<and> (exec_loop q tokenizer_init e = Inr end_st \<longrightarrow> in_quotes end_st \<or> escaping end_st \<longrightarrow>
        (\<exists>argv. convert_exec_to_command e q = Inr argv) \<and> validate_exec_key e \<noteq> None)"
proof -
  have "(\<exists>err. convert_exec_to_command e q = Inl err) \<longleftrightarrow>
        (\<exists>err. exec_loop q tokenizer_init e = Inl err)"
    by (auto simp: convert_exec_to_command_def split: sum.splits)
  also have "\<dots> \<longleftrightarrow> (\<exists>p c r st. e = p @ c # r \<and> exec_loop q tokenizer_init p = Inr st \<and>
       (\<not> extra_wine_escaping q \<and>
         ((escaping st \<and> c = SPC) \<or> (\<not> escaping st \<and> \<not> in_quotes st \<and> c = BSL))))"
    unfolding exec_loop_raises exec_char_raises ..
  finally have raises: "(\<exists>err. convert_exec_to_command e q = Inl err) \<longleftrightarrow>
      (\<not> extra_wine_escaping q \<and>
       (\<exists>p c r st. e = p @ c # r \<and> exec_loop q tokenizer_init p = Inr st \<and>
          ((escaping st \<and> c = SPC) \<or> (\<not> escaping st \<and> \<not> in_quotes st \<and> c = BSL))))"
    by blast
  have "(\<exists>argv. convert_exec_to_command e q = Inr argv) \<and> validate_exec_key e \<noteq> None"
    if l: "exec_loop q tokenizer_init e = Inr end_st" and s: "in_quotes end_st \<or> escaping end_st"
  proof
    from l show "\<exists>argv. convert_exec_to_command e q = Inr argv"
      by (simp add: convert_exec_to_command_def)
    show "validate_exec_key e \<noteq> None"
    proof
      assume "validate_exec_key e = None"
      with validated_exec_loop [of False 0 e tokenizer_init q]
      obtain st' where "exec_loop q tokenizer_init e = Inr st'" "\<not> in_quotes st'" "\<not> escaping st'"
        by (auto simp: validate_exec_key_def tokenizer_init_def)
      with l s show False by simp
    qed
  qed
  with raises show ?thesis by blast
qed

theorem convert_exec_raises_iff_witness:
  "(\<exists>err. convert_exec_to_command (''a'' @ [BSL] @ ''b'') default_quirks = Inl err)
   \<and> \<not> extra_wine_escaping default_quirks
   \<and> (\<exists>p c r st. ''a'' @ [BSL] @ ''b'' = p @ c # r \<and> exec_loop default_quirks tokenizer_init p = Inr st \<and>
       ((escaping st \<and> c = SPC) \<or> (\<not> escaping st \<and> \<not> in_quotes st \<and> c = BSL)))
   \<and> exec_loop default_quirks tokenizer_init ([DQ] @ ''abc'')
        = Inr \<lparr>result = [], curr = ''abc'', in_quotes = True, escaping = False\<rparr>
   \<and> (\<exists>argv. convert_exec_to_command ([DQ] @ ''abc'') default_quirks = Inr argv)
   \<and> validate_exec_key ([DQ] @ ''abc'') \<noteq> None"
proof -
  have "\<exists>err. convert_exec_to_command (''a'' @ [BSL] @ ''b'') default_quirks = Inl err"
    by (simp add: exec_eval)
  with convert_exec_raises_iff [of "''a'' @ [BSL] @ ''b''" default_quirks]
  have 1: "(\<exists>err. convert_exec_to_command (''a'' @ [BSL] @ ''b'') default_quirks = Inl err)
   \<and> \<not> extra_wine_escaping default_quirks
   \<and> (\<exists>p c r st. ''a'' @ [BSL] @ ''b'' = p @ c # r \<and> exec_loop default_quirks tokenizer_init p = Inr st \<and>
       ((escaping st \<and> c = SPC) \<or> (\<not> escaping st \<and> \<not> in_quotes st \<and> c = BSL)))"
    by blast
  have l: "exec_loop default_quirks tokenizer_init ([DQ] @ ''abc'')
        = Inr \<lparr>result = [], curr = ''abc'', in_quotes = True, escaping = False\<rparr>"
    by (simp add: exec_eval)
  from convert_exec_raises_iff [of "[DQ] @ ''abc''" default_quirks
      "\<lparr>result = [], curr = ''abc'', in_quotes = True, escaping = False\<rparr>"] l
  have 2: "(\<exists>argv. convert_exec_to_command ([DQ] @ ''abc'') default_quirks = Inr argv)
     \<and> validate_exec_key ([DQ] @ ''abc'') \<noteq> None"
    by simp
  from 1 l 2 show ?thesis by blast
qed

text \<open>
  Against claim C6 as stated: a field that ends inside double quotes, one that ends in
  the Escaping state, and one with the escape backslash-n inside double quotes all
  return an argument vector.
\<close>

theorem unterminated_exec_counterexample:
  "convert_exec_to_command ([DQ] @ ''abc'') default_quirks = Inr [''abc'']
   \<and> convert_exec_to_command ([DQ] @ ''a'' @ [BSL]) default_quirks = Inr [''a'']
   \<and> convert_exec_to_command ([DQ] @ ''a'' @ [BSL] @ ''nb'' @ [DQ]) default_quirks = Inr [''ab'']"
  by (simp add: exec_eval)

text \<open>
  Claim C7, as amended. For the Exec field \<open>wine_exec\<close> validation reports no error, and
  tokenization succeeds for every setting of the quirks with the same four tokens; each
  pair of backslashes of the field is one backslash of the last token.
\<close>

theorem wine_exec_tokens:
  "validate_exec_key wine_exec = None
   \<and> convert_exec_to_command wine_exec q =
       Inr [''wine'', ''start'', ''/unix'',
            ''C:'' @ [BSL] @ ''Program Files'' @ [BSL] @ ''App'' @ [BSL] @ ''app.exe'']"
  by (simp add: exec_eval wine_exec_def)

theorem wine_exec_tokens_witness:
  "validate_exec_key wine_exec = None
   \<and> convert_exec_to_command wine_exec \<lparr>extra_wine_escaping = True, multiple_spaces_in_exec = False\<rparr> =
       Inr [''wine'', ''start'', ''/unix'',
            ''C:'' @ [BSL] @ ''Program Files'' @ [BSL] @ ''App'' @ [BSL] @ ''app.exe'']"
  using wine_exec_tokens [of "\<lparr>extra_wine_escaping = True, multiple_spaces_in_exec = False\<rparr>"] .

text \<open>
  Against claim C7 as stated: validation and tokenization succeed with
  \<open>extra_wine_escaping\<close> disabled, and the last token does not keep the doubled
  backslashes. Read with one backslash at each place, the field does not validate and
  its last token is not the stated one, with the quirk enabled.
\<close>

theorem wine_exec_counterexample:
  "validate_exec_key wine_exec = None
   \<and> \<not> extra_wine_escaping default_quirks
   \<and> convert_exec_to_command wine_exec default_quirks =
       Inr [''wine'', ''start'', ''/unix'',
            ''C:'' @ [BSL] @ ''Program Files'' @ [BSL] @ ''App'' @ [BSL] @ ''app.exe'']
   \<and> convert_exec_to_command wine_exec \<lparr>extra_wine_escaping = True, multiple_spaces_in_exec = False\<rparr> \<noteq>
       Inr [''wine'', ''start'', ''/unix'',
            ''C:'' @ [BSL, BSL] @ ''Program Files'' @ [BSL, BSL] @ ''App'' @ [BSL, BSL] @ ''app.exe'']
   \<and> validate_exec_key wine_exec_single = Some (InvalidEscapeSequence (CHR ''P'') 21 22)
   \<and> convert_exec_to_command wine_exec_single
        \<lparr>extra_wine_escaping = True, multiple_spaces_in_exec = False\<rparr> =
       Inr [''wine'', ''start'', ''/unix'', ''C:rogram Filespppp.exe'']"
  by (simp add: exec_eval wine_exec_def wine_exec_single_def)

text \<open>
  The same field written with single backslashes inside the quotes: validation rejects
  it, whatever the quirks, and tokenization drops each letter after a backslash.
\<close>

lemma wine_exec_single_backslashes:
  "validate_exec_key wine_exec_single = Some (InvalidEscapeSequence (CHR ''P'') 21 22)
   \<and> convert_exec_to_command wine_exec_single q =
       Inr [''wine'', ''start'', ''/unix'', ''C:rogram Filespppp.exe'']"
  by (simp add: exec_eval wine_exec_single_def)

section \<open>Properties of the name mapping, the menu lines and the lookup\<close>

lemma dc_equiv_iff: "dc_equiv ci a b \<longleftrightarrow> key_fold ci a = key_fold ci b"
  by (auto simp: dc_equiv_def dc_less_def)

lemma dc_sorted_folded:
  "sorted_wrt (dc_less ci) ks \<longleftrightarrow> sorted_wrt (<) (map (key_fold ci) ks)"
proof -
  have "dc_less ci = (\<lambda>x y. key_fold ci x < key_fold ci y)"
    by (intro ext) (simp add: dc_less_def)
  then show ?thesis by (simp add: sorted_wrt_map)
qed

lemma dc_sorted_distinct: "sorted_wrt (dc_less ci) ks \<Longrightarrow> distinct (map (key_fold ci) ks)"
  by (simp add: dc_sorted_folded strict_sorted_iff)

subsection \<open>try_emplace\<close>

lemma map_try_emplace_set:
  "sorted_wrt (dc_less ci) (map fst m) \<Longrightarrow>
   set (map_try_emplace ci k v m) =
     (if \<exists>e \<in> set m. dc_equiv ci (fst e) k then set m else insert (k, v) (set m))"
proof (induction m)
  case Nil
  show ?case by simp
next
  case (Cons e m)
  obtain k' v' where e: "e = (k', v')" by (cases e)
  from Cons.prems e have s: "sorted_wrt (dc_less ci) (map fst m)"
    and lt: "\<forall>x \<in> set m. dc_less ci k' (fst x)" by simp_all
  show ?case
  proof (cases "dc_less ci k k'")
    case True
    then have "\<not> dc_equiv ci k' k" by (simp add: dc_equiv_def)
    moreover have "\<not> dc_equiv ci (fst x) k" if "x \<in> set m" for x
      using lt that True by (auto simp: dc_equiv_def dc_less_def)
    ultimately show ?thesis using True e by auto
  next
    case False
    show ?thesis
    proof (cases "dc_less ci k' k")
      case True
      then have "\<not> dc_equiv ci k' k" by (simp add: dc_equiv_def)
      with Cons.IH [OF s] True False e show ?thesis by auto
    next
      case nlt: False
      with False have "dc_equiv ci k' k" by (simp add: dc_equiv_def)
      with nlt False e show ?thesis by auto
    qed
  qed
qed

lemma map_try_emplace_sorted:
  "sorted_wrt (dc_less ci) (map fst m) \<Longrightarrow>
   sorted_wrt (dc_less ci) (map fst (map_try_emplace ci k v m))"
proof (induction m)
  case Nil
  show ?case by simp
next
  case (Cons e m)
  obtain k' v' where e: "e = (k', v')" by (cases e)
  from Cons.prems e have s: "sorted_wrt (dc_less ci) (map fst m)"
    and lt: "\<forall>x \<in> set m. dc_less ci k' (fst x)" by simp_all
  show ?case
  proof (cases "dc_less ci k k'")
    case True
    moreover have "dc_less ci k (fst x)" if "x \<in> set m" for x
      using lt that True by (auto simp: dc_less_def)
    ultimately show ?thesis using e s lt by auto
  next
    case False
    show ?thesis
    proof (cases "dc_less ci k' k")
      case True
      have "dc_less ci k' (fst x)" if "x \<in> set (map_try_emplace ci k v m)" for x
        using that lt True map_try_emplace_set [OF s, of k v] by (auto split: if_splits)
      with Cons.IH [OF s] True False e show ?thesis by auto
    next
      case nlt: False
      with False e s lt show ?thesis by simp
    qed
  qed
qed

lemma first_insertion_Cons:
  "first_insertion ci format (x # xs) k a \<longleftrightarrow>
     (format (fst x) (snd x) = k \<and> snd x = a)
     \<or> (\<not> dc_equiv ci (format (fst x) (snd x)) k \<and> first_insertion ci format xs k a)"
proof
  assume "first_insertion ci format (x # xs) k a"
  then obtain pre key post where o: "x # xs = pre @ (key, a) # post" and f: "format key a = k"
    and n: "\<forall>e \<in> set pre. \<not> dc_equiv ci (format (fst e) (snd e)) k"
    unfolding first_insertion_def by blast
  show "(format (fst x) (snd x) = k \<and> snd x = a)
     \<or> (\<not> dc_equiv ci (format (fst x) (snd x)) k \<and> first_insertion ci format xs k a)"
  proof (cases pre)
    case Nil
    with o f show ?thesis by auto
  next
    case (Cons p pre')
    with o have "p = x" and "xs = pre' @ (key, a) # post" by simp_all
    with n f Cons show ?thesis unfolding first_insertion_def by auto
  qed
next
  assume r: "(format (fst x) (snd x) = k \<and> snd x = a)
     \<or> (\<not> dc_equiv ci (format (fst x) (snd x)) k \<and> first_insertion ci format xs k a)"
  show "first_insertion ci format (x # xs) k a"
  proof (cases "format (fst x) (snd x) = k \<and> snd x = a")
    case True
    then have "x # xs = [] @ (fst x, a) # xs \<and> format (fst x) a = k" by auto
    then show ?thesis unfolding first_insertion_def by (metis empty_iff list.set(1))
  next
    case False
    with r have nx: "\<not> dc_equiv ci (format (fst x) (snd x)) k"
      and "first_insertion ci format xs k a" by auto
    then obtain pre key post where o: "xs = pre @ (key, a) # post" and f: "format key a = k"
      and n: "\<forall>e \<in> set pre. \<not> dc_equiv ci (format (fst e) (snd e)) k"
      unfolding first_insertion_def by blast
    from o have "x # xs = (x # pre) @ (key, a) # post" by simp
    moreover from n nx have "\<forall>e \<in> set (x # pre). \<not> dc_equiv ci (format (fst e) (snd e)) k" by simp
    ultimately show ?thesis using f unfolding first_insertion_def by blast
  qed
qed

lemma foldl_try_emplace:
  assumes "sorted_wrt (dc_less ci) (map fst m0)"
  shows "sorted_wrt (dc_less ci)
           (map fst (foldl (\<lambda>res (key, ptr). map_try_emplace ci (format key ptr) ptr res) m0 orig))
       \<and> ((k, a) \<in> set (foldl (\<lambda>res (key, ptr). map_try_emplace ci (format key ptr) ptr res) m0 orig)
            \<longleftrightarrow> (k, a) \<in> set m0
                \<or> ((\<forall>e \<in> set m0. \<not> dc_equiv ci (fst e) k) \<and> first_insertion ci format orig k a))"
  using assms
proof (induction orig arbitrary: m0)
  case Nil
  then show ?case by (simp add: first_insertion_def)
next
  case (Cons x xs)
  let ?fx = "format (fst x) (snd x)"
  let ?m1 = "map_try_emplace ci ?fx (snd x) m0"
  have s1: "sorted_wrt (dc_less ci) (map fst ?m1)" by (rule map_try_emplace_sorted [OF Cons.prems])
  have set1: "set ?m1 = (if \<exists>e \<in> set m0. dc_equiv ci (fst e) ?fx then set m0 else insert (?fx, snd x) (set m0))"
    by (rule map_try_emplace_set [OF Cons.prems])
  have step: "foldl (\<lambda>res (key, ptr). map_try_emplace ci (format key ptr) ptr res) m0 (x # xs) =
        foldl (\<lambda>res (key, ptr). map_try_emplace ci (format key ptr) ptr res) ?m1 xs"
    by (simp add: case_prod_unfold)
  from Cons.IH [OF s1]
  have sorted: "sorted_wrt (dc_less ci)
           (map fst (foldl (\<lambda>res (key, ptr). map_try_emplace ci (format key ptr) ptr res) ?m1 xs))"
    and mem: "(k, a) \<in> set (foldl (\<lambda>res (key, ptr). map_try_emplace ci (format key ptr) ptr res) ?m1 xs)
            \<longleftrightarrow> (k, a) \<in> set ?m1
                \<or> ((\<forall>e \<in> set ?m1. \<not> dc_equiv ci (fst e) k) \<and> first_insertion ci format xs k a)"
    by simp_all
  have "(k, a) \<in> set ?m1 \<or> ((\<forall>e \<in> set ?m1. \<not> dc_equiv ci (fst e) k) \<and> first_insertion ci format xs k a)
        \<longleftrightarrow> (k, a) \<in> set m0
                \<or> ((\<forall>e \<in> set m0. \<not> dc_equiv ci (fst e) k) \<and> first_insertion ci format (x # xs) k a)"
  proof (cases "\<exists>e \<in> set m0. dc_equiv ci (fst e) ?fx")
    case True
    then have "\<not> dc_equiv ci ?fx k" if "\<forall>e \<in> set m0. \<not> dc_equiv ci (fst e) k"
      using that by (auto simp: dc_equiv_iff)
    moreover have "?fx \<noteq> k" if "\<forall>e \<in> set m0. \<not> dc_equiv ci (fst e) k"
      using that True by auto
    ultimately show ?thesis using True set1 by (auto simp: first_insertion_Cons)
  next
    case False
    have refl: "dc_equiv ci k k" by (simp add: dc_equiv_iff)
    from False have "\<not> dc_equiv ci (fst e) k" if "e \<in> set m0" "?fx = k" for e
      using that by auto
    with False set1 refl show ?thesis
      by (auto simp: first_insertion_Cons)
  qed
  with sorted mem step show ?case by simp
qed

text \<open>
  Claim C8. For every catalog order, formatter and comparator the constructed name
  mapping is strictly increasing in its keys, so no two keys are equivalent under the
  comparator; and an entry is in it exactly when it is the first insertion of its key:
  an application whose formatted key is equivalent to an earlier one is discarded.
\<close>

theorem name_mapping_first_wins:
  "sorted_wrt (dc_less ci) (map fst (format_name_app_mapping orig format ci))
   \<and> distinct (map (key_fold ci) (map fst (format_name_app_mapping orig format ci)))
   \<and> ((k, a) \<in> set (format_name_app_mapping orig format ci) \<longleftrightarrow>
        (\<exists>pre key post. orig = pre @ (key, a) # post \<and> format key a = k \<and>
           (\<forall>e \<in> set pre. \<not> dc_equiv ci (format (fst e) (snd e)) k)))"
proof -
  from foldl_try_emplace [of ci "[]" format orig k a]
  have s: "sorted_wrt (dc_less ci) (map fst (format_name_app_mapping orig format ci))"
    and m: "(k, a) \<in> set (format_name_app_mapping orig format ci) \<longleftrightarrow> first_insertion ci format orig k a"
    by (simp_all add: format_name_app_mapping_def)
  from dc_sorted_distinct [OF s] s m show ?thesis by (simp add: first_insertion_def)
qed

theorem name_mapping_first_wins_witness:
  "sorted_wrt (dc_less True)
     (map fst (format_name_app_mapping [(''x'', 1::nat), (''y'', 2), (''X'', 3)] (\<lambda>k a. k) True))
   \<and> distinct (map (key_fold True)
       (map fst (format_name_app_mapping [(''x'', 1::nat), (''y'', 2), (''X'', 3)] (\<lambda>k a. k) True)))
   \<and> (''x'', 1) \<in> set (format_name_app_mapping [(''x'', 1::nat), (''y'', 2), (''X'', 3)] (\<lambda>k a. k) True)
   \<and> (''X'', 3) \<notin> set (format_name_app_mapping [(''x'', 1::nat), (''y'', 2), (''X'', 3)] (\<lambda>k a. k) True)"
proof -
  let ?orig = "[(''x'', 1::nat), (''y'', 2), (''X'', 3)]"
  have "?orig = [] @ (''x'', 1) # [(''y'', 2), (''X'', 3)] \<and> (\<lambda>k a. k) ''x'' (1::nat) = ''x''
      \<and> (\<forall>e \<in> set ([] :: (string \<times> nat) list). \<not> dc_equiv True ((\<lambda>k a. k) (fst e) (snd e)) ''x'')"
    by simp
  then have x: "\<exists>pre key post. ?orig = pre @ (key, 1) # post \<and> (\<lambda>k a. k) key (1::nat) = ''x''
      \<and> (\<forall>e \<in> set pre. \<not> dc_equiv True ((\<lambda>k a. k) (fst e) (snd e)) ''x'')"
    by blast
  have "dc_equiv True ''x'' ''X''" by code_simp
  then have X: "\<not> (\<exists>pre key post. ?orig = pre @ (key, 3) # post \<and> (\<lambda>k a. k) key (3::nat) = ''X''
      \<and> (\<forall>e \<in> set pre. \<not> dc_equiv True ((\<lambda>k a. k) (fst e) (snd e)) ''X''))"
    by (auto simp: Cons_eq_append_conv append_eq_Cons_conv)
  from name_mapping_first_wins [of True ?orig "\<lambda>k a. k" "''x''" 1] x
    name_mapping_first_wins [of True ?orig "\<lambda>k a. k" "''X''" 3] X
  show ?thesis by blast
qed

subsection \<open>The set of names and the history\<close>

lemma set_emplace_snoc:
  "\<forall>y \<in> set s. dc_less ci y k \<Longrightarrow> set_emplace ci k s = s @ [k]"
  by (induction s) (auto simp: dc_less_def)

lemma foldl_set_emplace:
  "sorted_wrt (dc_less ci) (s0 @ map fst m) \<Longrightarrow>
   foldl (\<lambda>s e. set_emplace ci (fst e) s) s0 m = s0 @ map fst m"
proof (induction m arbitrary: s0)
  case Nil
  show ?case by simp
next
  case (Cons e m)
  from Cons.prems have "\<forall>y \<in> set s0. dc_less ci y (fst e)"
    by (simp add: sorted_wrt_append)
  then have "set_emplace ci (fst e) s0 = s0 @ [fst e]" by (rule set_emplace_snoc)
  moreover from Cons.prems have "sorted_wrt (dc_less ci) ((s0 @ [fst e]) @ map fst m)" by simp
  ultimately show ?case using Cons.IH [of "s0 @ [fst e]"] by simp
qed

lemma first_of_each_distinct: "distinct (map f xs) \<Longrightarrow> first_of_each f xs = xs"
proof (induction xs)
  case Nil
  show ?case by simp
next
  case (Cons x xs)
  then have "f x \<notin> f ` set xs" by simp
  then have "\<forall>y \<in> set xs. f y \<noteq> f x" by (metis imageI)
  then have "filter (\<lambda>y. f y \<noteq> f x) xs = xs" by (simp add: filter_id_conv)
  with Cons show ?case by simp
qed

lemma first_of_each_filter:
  "(\<And>x y. f x = f y \<Longrightarrow> Q x = Q y) \<Longrightarrow>
   first_of_each f (filter Q xs) = filter Q (first_of_each f xs)"
proof (induction f xs rule: first_of_each.induct)
  case (1 f)
  show ?case by simp
next
  case (2 f x xs)
  have comm: "filter (\<lambda>y. f y \<noteq> f x) (filter Q xs) = filter Q (filter (\<lambda>y. f y \<noteq> f x) xs)"
    by (simp add: conj_commute)
  show ?case
  proof (cases "Q x")
    case True
    with "2.IH" [OF "2.prems"] comm show ?thesis by simp
  next
    case False
    have "Q y \<Longrightarrow> f y \<noteq> f x" for y using False "2.prems" by blast
    then have "filter Q (filter (\<lambda>y. f y \<noteq> f x) xs) = filter Q xs"
      by (auto intro: filter_cong)
    with "2.IH" [OF "2.prems"] False show ?thesis by simp
  qed
qed

lemma first_of_each_set: "set (first_of_each f xs) \<subseteq> set xs"
  by (induction f xs rule: first_of_each.induct) auto

lemma first_of_each_distinct_keys: "distinct (map f (first_of_each f xs))"
proof (induction f xs rule: first_of_each.induct)
  case (1 f)
  show ?case by simp
next
  case (2 f x xs)
  have "f x \<notin> f ` set (first_of_each f (filter (\<lambda>y. f y \<noteq> f x) xs))"
    using first_of_each_set [of f "filter (\<lambda>y. f y \<noteq> f x) xs"] by auto
  with "2.IH" show ?case by simp
qed

lemma history_step_eq:
  "history_step ci (s, w) entry =
     (filter (\<lambda>e. key_fold ci e \<noteq> key_fold ci (snd entry)) s,
      w @ (if key_fold ci (snd entry) \<in> key_fold ci ` set s then [snd entry] else []))"
proof -
  have "filter (\<lambda>e. dc_equiv ci e (snd entry)) s \<noteq> [] \<longleftrightarrow> key_fold ci (snd entry) \<in> key_fold ci ` set s"
    unfolding filter_empty_conv dc_equiv_iff by (metis (no_types, lifting) image_iff)
  then show ?thesis by (auto simp: history_step_def set_erase_def dc_equiv_iff)
qed

lemma history_loop:
  "foldl (history_step ci) (s, w) view =
     (filter (\<lambda>e. key_fold ci e \<notin> key_fold ci ` snd ` set view) s,
      w @ filter (\<lambda>n. key_fold ci n \<in> key_fold ci ` set s) (first_of_each (key_fold ci) (map snd view)))"
proof (induction view arbitrary: s w)
  case Nil
  show ?case by simp
next
  case (Cons entry view)
  let ?f = "key_fold ci"
  let ?n = "snd entry"
  let ?s1 = "filter (\<lambda>e. ?f e \<noteq> ?f ?n) s"
  have rest: "filter (\<lambda>e. ?f e \<notin> ?f ` snd ` set view) ?s1 =
              filter (\<lambda>e. ?f e \<notin> ?f ` snd ` set (entry # view)) s"
    by (auto intro: filter_cong)
  have "filter (\<lambda>n. ?f n \<in> ?f ` set ?s1) (first_of_each ?f (map snd view)) =
        filter (\<lambda>n. ?f n \<in> ?f ` set s) (filter (\<lambda>y. ?f y \<noteq> ?f ?n) (first_of_each ?f (map snd view)))"
    by (auto intro!: filter_cong)
  also have "\<dots> = filter (\<lambda>n. ?f n \<in> ?f ` set s) (first_of_each ?f (filter (\<lambda>y. ?f y \<noteq> ?f ?n) (map snd view)))"
    by (subst first_of_each_filter) auto
  finally have shown: "filter (\<lambda>n. ?f n \<in> ?f ` set ?s1) (first_of_each ?f (map snd view)) =
        filter (\<lambda>n. ?f n \<in> ?f ` set s) (first_of_each ?f (filter (\<lambda>y. ?f y \<noteq> ?f ?n) (map snd view)))" .
  show ?case
    using Cons.IH [of ?s1 "w @ (if ?f ?n \<in> ?f ` set s then [?n] else [])"] rest shown
    by (simp add: history_step_eq)
qed

lemmas dc_eval = dc_equiv_def dc_less_def key_fold_def

lemma fold_in_image: "key_fold ci n \<in> key_fold ci ` S \<longleftrightarrow> (\<exists>k \<in> S. dc_equiv ci k n)"
  unfolding dc_equiv_iff image_iff by metis

text \<open>
  Claim C4. With a history present, the lines written are the history names in history
  order, only those with an equivalent key in the mapping and only the first of
  equivalent names, followed by the keys of the mapping that no history name is
  equivalent to, in the order of the mapping. No two lines are equivalent. When the
  history names are pairwise inequivalent the first part is every history name with a
  key in the mapping. For the catalog A, B, C and the history (3, B), (1, A) the lines
  are B, A, C.
\<close>

theorem menu_lines_history_first:
  assumes "sorted_wrt (dc_less ci) (map fst mapping)"
  shows "do_dmenu_lines ci mapping (Some view) =
           filter (\<lambda>n. \<exists>k \<in> set (map fst mapping). dc_equiv ci k n)
             (first_of_each (key_fold ci) (map snd view))
           @ filter (\<lambda>k. \<forall>n \<in> set (map snd view). \<not> dc_equiv ci k n) (map fst mapping)
       \<and> distinct (map (key_fold ci) (do_dmenu_lines ci mapping (Some view)))
       \<and> (distinct (map (key_fold ci) (map snd view)) \<longrightarrow>
            do_dmenu_lines ci mapping (Some view) =
              filter (\<lambda>n. \<exists>k \<in> set (map fst mapping). dc_equiv ci k n) (map snd view)
              @ filter (\<lambda>k. \<forall>n \<in> set (map snd view). \<not> dc_equiv ci k n) (map fst mapping))
       \<and> do_dmenu_lines False [(''A'', a), (''B'', b), (''C'', c)] (Some [(3, ''B''), (1, ''A'')])
            = [''B'', ''A'', ''C'']"
proof -
  let ?f = "key_fold ci"
  let ?keys = "map fst mapping"
  let ?names = "map snd view"
  let ?H = "filter (\<lambda>n. \<exists>k \<in> set ?keys. dc_equiv ci k n) (first_of_each ?f ?names)"
  let ?R = "filter (\<lambda>k. \<forall>n \<in> set ?names. \<not> dc_equiv ci k n) ?keys"
  have names: "foldl (\<lambda>s e. set_emplace ci (fst e) s) [] mapping = ?keys"
    using foldl_set_emplace [of ci "[]" mapping] assms by simp
  have H: "filter (\<lambda>n. ?f n \<in> ?f ` set ?keys) (first_of_each ?f ?names) = ?H"
    by (simp only: fold_in_image)
  have "?f e \<notin> ?f ` snd ` set view \<longleftrightarrow> (\<forall>n \<in> set ?names. \<not> dc_equiv ci e n)" for e
    unfolding dc_equiv_iff by (simp add: image_iff)
  then have R: "filter (\<lambda>e. ?f e \<notin> ?f ` snd ` set view) ?keys = ?R"
    by (simp only:)
  have eq: "do_dmenu_lines ci mapping (Some view) = ?H @ ?R"
    using H R by (simp add: do_dmenu_lines_def names history_loop)
  have dH: "distinct (map ?f ?H)"
    using first_of_each_distinct_keys [of ?f ?names] by (rule distinct_map_filter)
  have dR: "distinct (map ?f ?R)"
    using dc_sorted_distinct [OF assms] by (rule distinct_map_filter)
  have "?f h \<noteq> ?f k" if "h \<in> set ?H" and "k \<in> set ?R" for h k
  proof -
    from that(1) first_of_each_set [of ?f ?names] have "h \<in> set ?names" by auto
    with that(2) show ?thesis by (auto simp: dc_equiv_iff)
  qed
  then have "set (map ?f ?H) \<inter> set (map ?f ?R) = {}" by auto
  with dH dR have d: "distinct (map ?f (?H @ ?R))" by simp
  have ex: "do_dmenu_lines False [(''A'', a), (''B'', b), (''C'', c)] (Some [(3, ''B''), (1, ''A'')])
            = [''B'', ''A'', ''C'']"
    by (simp add: do_dmenu_lines_def history_step_def set_erase_def dc_eval)
  from eq d ex show ?thesis by (simp add: first_of_each_distinct)
qed

theorem menu_lines_history_first_witness:
  "sorted_wrt (dc_less False) (map fst [(''A'', 1::nat), (''B'', 2), (''C'', 3)])
   \<and> distinct (map (key_fold False) (map snd [(3::nat, ''B''), (2, ''Z''), (1, ''A'')]))
   \<and> do_dmenu_lines False [(''A'', 1::nat), (''B'', 2), (''C'', 3)]
        (Some [(3, ''B''), (2, ''Z''), (1, ''A'')]) = [''B'', ''A'', ''C'']
   \<and> distinct (map (key_fold False) [''B'', ''A'', ''C''])"
proof -
  have s: "sorted_wrt (dc_less False) (map fst [(''A'', 1::nat), (''B'', 2), (''C'', 3)])"
    by (simp add: dc_eval)
  have d: "distinct (map (key_fold False) (map snd [(3::nat, ''B''), (2, ''Z''), (1, ''A'')]))"
    by (simp add: dc_eval)
  from menu_lines_history_first [OF s, of "[(3, ''B''), (2, ''Z''), (1, ''A'')]" "1::nat" 2 3] d
  have "do_dmenu_lines False [(''A'', 1::nat), (''B'', 2), (''C'', 3)]
          (Some [(3, ''B''), (2, ''Z''), (1, ''A'')]) = [''B'', ''A'', ''C'']"
    and "distinct (map (key_fold False) (do_dmenu_lines False [(''A'', 1::nat), (''B'', 2), (''C'', 3)]
          (Some [(3, ''B''), (2, ''Z''), (1, ''A'')])))"
    by (simp_all add: dc_eval)
  with s d show ?thesis by simp
qed

subsection \<open>lookup_name\<close>

lemma map_find_equiv:
  assumes "sorted_wrt (dc_less ci) (map fst m)" and "(k, a) \<in> set m" and "dc_equiv ci k query"
  shows "map_find ci m query = Some (k, a)"
proof -
  from assms(2,3) have "\<exists>e \<in> set m. dc_equiv ci (fst e) query" by force
  then obtain x where f: "find (\<lambda>e. dc_equiv ci (fst e) query) m = Some x"
    by (cases "find (\<lambda>e. dc_equiv ci (fst e) query) m") (auto simp: find_None_iff)
  then have x: "x \<in> set m" and px: "dc_equiv ci (fst x) query"
    by (auto simp: find_Some_iff)
  from dc_sorted_distinct [OF assms(1)] have "distinct (map (\<lambda>e. key_fold ci (fst e)) m)"
    by (simp add: comp_def)
  then have "inj_on (\<lambda>e. key_fold ci (fst e)) (set m)" by (simp add: distinct_map)
  moreover from px assms(3) have "key_fold ci (fst x) = key_fold ci (fst (k, a))"
    by (simp add: dc_equiv_iff)
  ultimately have "x = (k, a)" using x assms(2) by (rule inj_onD)
  with f show ?thesis by (simp add: map_find_def)
qed

lemma map_find_none:
  "(\<forall>e \<in> set m. \<not> dc_equiv ci (fst e) query) \<Longrightarrow> map_find ci m query = None"
  by (auto simp: map_find_def find_None_iff)

lemma lookup_prefix_skip:
  "(\<forall>e \<in> set pre. \<not> prefix (fst e) query) \<Longrightarrow>
   lookup_prefix query (pre @ rest) = lookup_prefix query rest"
  by (induction pre) (auto simp: startswith_def)

text \<open>
  Claim C2, as amended. When a key of the mapping is equivalent to the choice,
  \<open>lookup_name\<close> returns its application with empty arguments. Otherwise it returns the
  application of the first key, in the order of the mapping, that is a prefix of the
  choice, with the choice minus the first \<open>length k\<close> characters as arguments. When no
  key is equivalent to the choice or a prefix of it, it returns nothing.
\<close>

theorem lookup_name_first_prefix:
  "(sorted_wrt (dc_less ci) (map fst m) \<longrightarrow> (k, a) \<in> set m \<longrightarrow> dc_equiv ci k query \<longrightarrow>
      lookup_name ci query m = Some \<lparr>app = a, args = []\<rparr>)
   \<and> ((\<forall>e \<in> set m. \<not> dc_equiv ci (fst e) query) \<longrightarrow> m = pre @ (k, a) # post \<longrightarrow>
        prefix k query \<longrightarrow> (\<forall>e \<in> set pre. \<not> prefix (fst e) query) \<longrightarrow>
      lookup_name ci query m = Some \<lparr>app = a, args = drop (length k) query\<rparr>)
   \<and> ((\<forall>e \<in> set m. \<not> dc_equiv ci (fst e) query) \<longrightarrow> (\<forall>e \<in> set m. \<not> prefix (fst e) query) \<longrightarrow>
      lookup_name ci query m = None)"
proof (intro conjI impI)
  assume "sorted_wrt (dc_less ci) (map fst m)" "(k, a) \<in> set m" "dc_equiv ci k query"
  then have "map_find ci m query = Some (k, a)" by (rule map_find_equiv)
  then show "lookup_name ci query m = Some \<lparr>app = a, args = []\<rparr>"
    by (simp add: lookup_name_def)
next
  assume n: "\<forall>e \<in> set m. \<not> dc_equiv ci (fst e) query" and m: "m = pre @ (k, a) # post"
    and p: "prefix k query" and f: "\<forall>e \<in> set pre. \<not> prefix (fst e) query"
  from lookup_prefix_skip [OF f, of "(k, a) # post"] p m
  have "lookup_prefix query m = Some \<lparr>app = a, args = drop (length k) query\<rparr>"
    by (simp add: startswith_def)
  with map_find_none [OF n]
  show "lookup_name ci query m = Some \<lparr>app = a, args = drop (length k) query\<rparr>"
    by (simp add: lookup_name_def)
next
  assume n: "\<forall>e \<in> set m. \<not> dc_equiv ci (fst e) query" and f: "\<forall>e \<in> set m. \<not> prefix (fst e) query"
  from lookup_prefix_skip [OF f, of "[]"] have "lookup_prefix query m = None" by simp
  with map_find_none [OF n] show "lookup_name ci query m = None"
    by (simp add: lookup_name_def)
qed

theorem lookup_name_first_prefix_witness:
  "sorted_wrt (dc_less False) (map fst [(''Firefox'', 1::nat)])
   \<and> (''Firefox'', 1::nat) \<in> set [(''Firefox'', 1)]
   \<and> dc_equiv False ''Firefox'' ''Firefox''
   \<and> lookup_name False ''Firefox'' [(''Firefox'', 1::nat)] = Some \<lparr>app = 1, args = []\<rparr>
   \<and> \<not> dc_equiv False ''Firefox'' ''Firefox https://x''
   \<and> prefix ''Firefox'' ''Firefox https://x''
   \<and> lookup_name False ''Firefox https://x'' [(''Firefox'', 1::nat)]
        = Some \<lparr>app = 1, args = '' https://x''\<rparr>
   \<and> \<not> dc_equiv False ''Firefox'' ''xterm -e top''
   \<and> \<not> prefix ''Firefox'' ''xterm -e top''
   \<and> lookup_name False ''xterm -e top'' [(''Firefox'', 1::nat)] = None"
proof -
  let ?m = "[(''Firefox'', 1::nat)]"
  have e: "dc_equiv False ''Firefox'' ''Firefox''"
    and n1: "\<not> dc_equiv False ''Firefox'' ''Firefox https://x''"
    and n2: "\<not> dc_equiv False ''Firefox'' ''xterm -e top''"
    by (simp_all add: dc_equiv_iff key_fold_def)
  have p1: "prefix ''Firefox'' ''Firefox https://x''" and p2: "\<not> prefix ''Firefox'' ''xterm -e top''"
    by simp_all
  from lookup_name_first_prefix [of False ?m "''Firefox''" 1 "''Firefox''" "[]" "[]"] e
  have 1: "lookup_name False ''Firefox'' ?m = Some \<lparr>app = 1, args = []\<rparr>" by simp
  from lookup_name_first_prefix [of False ?m "''Firefox''" 1 "''Firefox https://x''" "[]" "[]"] n1 p1
  have 2: "lookup_name False ''Firefox https://x'' ?m = Some \<lparr>app = 1, args = '' https://x''\<rparr>"
    by simp
  from lookup_name_first_prefix [of False ?m "''Firefox''" 1 "''xterm -e top''" "[]" "[]"] n2 p2
  have 3: "lookup_name False ''xterm -e top'' ?m = None" by simp
  from e n1 n2 p1 p2 1 2 3 show ?thesis by simp
qed

text \<open>
  Against claim C2 as stated: the arguments keep the space after the key, and a key
  that is a prefix matches without a space after it.
\<close>

theorem lookup_name_counterexample:
  "lookup_name False ''Firefox https://x'' [(''Firefox'', 0::nat)]
     = Some \<lparr>app = 0, args = '' https://x''\<rparr>
   \<and> lookup_name False ''Firefox https://x'' [(''Firefox'', 0::nat)]
     \<noteq> Some \<lparr>app = 0, args = ''https://x''\<rparr>
   \<and> lookup_name False ''Firefoxy'' [(''Firefox'', 0::nat)] = Some \<lparr>app = 0, args = ''y''\<rparr>"
  by (simp add: lookup_name_def map_find_def startswith_def dc_eval)

end
